theory Spec2Isabelle
  imports Complex_Main "HOL-Library.AList" "HOL-Library.Sublist"
begin

section \<open>Python values\<close>

text \<open>
  A Python \<open>str\<close> is a sequence of Unicode code points; a code point is a natural
  number. A \<open>dict\<close> is an association list in insertion order whose keys are pairwise
  distinct: \<open>d[k] = v\<close> is \<^const>\<open>AList.update\<close> (an existing key keeps its place, a
  new key goes to the end), \<open>len(d)\<close> is the length, \<open>d.values()\<close> is \<open>map snd\<close>.
  Python's numbers (\<open>int\<close> and \<open>float\<close>) are modelled by exact rationals.
\<close>

type_synonym pystr = "nat list"

datatype error = IndexError | KeyError | ValueError

definition str_lit :: "string \<Rightarrow> pystr" where
  "str_lit s = map of_char s"

section \<open>\<open>generate_hint_labels\<close>\<close>

definition chars :: pystr where
  "chars = str_lit ''SADFJKLEWCMPGH''"

text \<open>\<open>while len(chars)**length < count: length += 1\<close>\<close>

function label_length :: "nat \<Rightarrow> nat \<Rightarrow> nat" where
  "label_length count l =
     (if length chars ^ l < count then label_length count (l + 1) else l)"
  by pat_completeness auto
termination
proof (relation "measure (\<lambda>(count, l). count - length chars ^ l)")
  show "wf (measure (\<lambda>(count, l). count - length chars ^ l))" by simp
next
  fix count l :: nat
  assume a: "length chars ^ l < count"
  have "length chars = 14" by (simp add: chars_def str_lit_def)
  then have "length chars ^ (l + 1) = 14 * length chars ^ l" by simp
  moreover have "0 < length chars ^ l" using \<open>length chars = 14\<close> by simp
  ultimately have "count - length chars ^ (l + 1) < count - length chars ^ l"
    using a by linarith
  then show "((count, l + 1), (count, l)) \<in> measure (\<lambda>(count, l). count - length chars ^ l)"
    by simp
qed

declare label_length.simps [simp del]

text \<open>
  The nested helper \<open>rec(p, l)\<close>; the list \<open>labels\<close> it appends to is passed in and
  returned.
\<close>

fun rec :: "nat \<Rightarrow> pystr list \<Rightarrow> pystr \<Rightarrow> nat \<Rightarrow> pystr list" where
  "rec count labels p 0 = labels @ [p]"
| "rec count labels p (Suc l) =
     fold (\<lambda>c labels. if length labels < count then rec count labels (p @ [c]) l else labels)
       chars labels"

text \<open>
  \<open>{labels[i]: child for i, child in enumerate(hints.values())}\<close>; \<open>labels[i]\<close>
  raises \<open>IndexError\<close> when \<open>i\<close> is out of range.
\<close>

fun label_dict :: "pystr list \<Rightarrow> nat \<Rightarrow> 'c list \<Rightarrow> (pystr \<times> 'c) list \<Rightarrow> error + (pystr \<times> 'c) list" where
  "label_dict labels i [] acc = Inr acc"
| "label_dict labels i (child # rest) acc =
     (if i < length labels
      then label_dict labels (Suc i) rest (AList.update (labels ! i) child acc)
      else Inl IndexError)"

definition hint_labels :: "nat \<Rightarrow> pystr list" where
  "hint_labels count =
     (let l = label_length count 1
      in if l = 1 then map (\<lambda>c. [c]) (take count chars) else rec count [] [] l)"

definition generate_hint_labels :: "('k \<times> 'c) list \<Rightarrow> error + (pystr \<times> 'c) list" where
  "generate_hint_labels hints = label_dict (hint_labels (length hints)) 0 (map snd hints) []"

section \<open>Elements and the library functions the overlay calls\<close>

text \<open>
  \<open>Child\<close> (module \<open>hints.child\<close>): the attributes the overlay reads. \<open>role\<close> and
  \<open>name\<close> are read with \<open>getattr\<close>/\<open>hasattr\<close>, so either may be absent (\<open>None\<close>).
\<close>

record child =
  width :: rat
  height :: rat
  relative_position :: "rat \<times> rat"
  absolute_position :: "rat \<times> rat"
  role :: "pystr option"
  name :: "pystr option"

text \<open>
  The methods of \<open>str\<close> that depend on the Unicode tables are parameters of the model:
  \<open>s.lower()\<close>, \<open>s.upper()\<close>, \<open>s.strip()\<close>, \<open>ch.isalpha()\<close> and \<open>ch.isdigit()\<close> of a
  one-character string, and the value \<open>int\<close> gives a character as a decimal digit
  (\<open>None\<close> where \<open>int\<close> raises \<open>ValueError\<close>). Every theorem holds for every choice of them.
\<close>

record pylib =
  py_lower :: "pystr \<Rightarrow> pystr"
  py_upper :: "pystr \<Rightarrow> pystr"
  py_strip :: "pystr \<Rightarrow> pystr"
  py_isalpha :: "nat \<Rightarrow> bool"
  py_isdigit :: "nat \<Rightarrow> bool"
  py_digit_value :: "nat \<Rightarrow> nat option"

text \<open>
  \<open>round(q)\<close> with one argument: the nearest integer, a tie going to the even one.
\<close>

definition py_round :: "rat \<Rightarrow> int" where
  "py_round q =
     (let f = \<lfloor>q\<rfloor>; d = q - of_int f
      in if d < 1 / 2 then f else if 1 / 2 < d then f + 1 else if even f then f else f + 1)"

section \<open>\<open>filter_important_hints\<close>\<close>

definition skip_keywords :: "pystr list" where
  "skip_keywords = map str_lit
     [''separator'', ''filler'', ''scroll bar'', ''status bar'', ''decoration'', ''frame'',
      ''border'']"

definition click_keywords :: "pystr list" where
  "click_keywords = map str_lit
     [''button'', ''link'', ''menu'', ''tab'', ''entry'', ''text'', ''combo'', ''check'',
      ''radio'', ''toggle'', ''tool'', ''item'', ''cell'', ''option'', ''choice'']"

definition pos_key :: "child \<Rightarrow> int \<times> int" where
  "pos_key child = (let (x, y) = relative_position child in (py_round (x / 10), py_round (y / 10)))"

text \<open>
  The loop of \<open>filter_important_hints\<close> over \<open>hints.items()\<close>, with the set \<open>seen\<close> and
  the dictionary \<open>important_hints\<close> it builds. \<open>W\<close> and \<open>H\<close> are \<open>self.width\<close> and
  \<open>self.height\<close>; \<open>k in role\<close> is \<^const>\<open>sublist\<close>. Each \<open>continue\<close> is the
  recursive call on the rest with \<open>seen\<close> and \<open>important_hints\<close> unchanged.
\<close>

fun filter_loop ::
  "pylib \<Rightarrow> rat \<Rightarrow> rat \<Rightarrow> ('k \<times> child) list \<Rightarrow> (int \<times> int) set \<Rightarrow> ('k \<times> child) list
   \<Rightarrow> ('k \<times> child) list" where
  "filter_loop L W H [] seen important_hints = important_hints"
| "filter_loop L W H ((key, child) # rest) seen important_hints =
     (if width child < 8 \<or> height child < 8 then filter_loop L W H rest seen important_hints
      else
        let (x, y) = relative_position child
        in if x < - width child \<or> y < - height child \<or> x > W + width child \<or> y > H + height child
           then filter_loop L W H rest seen important_hints
           else
             let role = (case role child of None \<Rightarrow> [] | Some r \<Rightarrow> py_lower L r);
                 name = (case name child of None \<Rightarrow> [] | Some n \<Rightarrow> py_strip L n)
             in if list_ex (\<lambda>k. sublist k role) skip_keywords
                then filter_loop L W H rest seen important_hints
                else
                  let is_clickable =
                        (if role = [] then True else list_ex (\<lambda>k. sublist k role) click_keywords)
                  in if pos_key child \<in> seen
                     then filter_loop L W H rest seen important_hints
                     else if is_clickable \<or> (name \<noteq> [] \<and> width child > 20 \<and> height child > 15)
                               \<or> (width child > 40 \<and> height child > 20)
                          then filter_loop L W H rest (insert (pos_key child) seen)
                                 (AList.update key child important_hints)
                          else filter_loop L W H rest seen important_hints)"

definition filter_important_hints ::
  "pylib \<Rightarrow> rat \<Rightarrow> rat \<Rightarrow> ('k \<times> child) list \<Rightarrow> ('k \<times> child) list" where
  "filter_important_hints L W H hints = filter_loop L W H hints {} []"

section \<open>Layout: \<open>calculate_vimium_position\<close> and \<open>on_draw\<close>\<close>

text \<open>A drawn rectangle \<open>(x, y, w, h)\<close>, as the tuples of the list \<open>drawn\<close>.\<close>

type_synonym rect = "rat \<times> rat \<times> rat \<times> rat"

definition calculate_vimium_position :: "rat \<Rightarrow> rat \<Rightarrow> child \<Rightarrow> rat \<Rightarrow> rat \<Rightarrow> rat \<times> rat" where
  "calculate_vimium_position W H child w h =
     (let (x, y) = relative_position child;
          x = x - 5; y = y - 5;
          x = max 0 (min x (W - w));
          y = max 0 (min y (H - h))
      in (x, y))"

text \<open>
  One iteration of \<open>for dx,dy,dw,dh in drawn\<close> (the body changes \<open>y\<close> only), and the
  whole inner loop, which visits \<open>drawn\<close> once from its first element.
\<close>

definition avoid_step :: "rat \<Rightarrow> rat \<Rightarrow> rat \<Rightarrow> rat \<Rightarrow> rect \<Rightarrow> rat \<Rightarrow> rat" where
  "avoid_step H x w h = (\<lambda>(dx, dy, dw, dh) y.
     if x < dx + dw \<and> x + w > dx \<and> y < dy + dh \<and> y + h > dy
     then (let y = dy + dh + 2 in if y + h > H then dy - h - 2 else y)
     else y)"

definition avoid_drawn :: "rat \<Rightarrow> rat \<Rightarrow> rat \<Rightarrow> rat \<Rightarrow> rect list \<Rightarrow> rat \<Rightarrow> rat" where
  "avoid_drawn H x w h drawn y = fold (avoid_step H x w h) drawn y"

section \<open>The overlay window\<close>

text \<open>
  The dictionary \<open>mouse_action\<close> with the keys the overlay reads and writes
  (\<open>"action"\<close>, \<open>"x"\<close>, \<open>"y"\<close>, \<open>"repeat"\<close>, \<open>"button"\<close>); an absent key is \<open>None\<close>. \<open>MouseButton\<close> (module \<open>hints.mouse_enums\<close>) is used at \<open>LEFT\<close> and
  \<open>RIGHT\<close> only.
\<close>

datatype action_kind = Click | Hover | Grab

datatype mouse_button = LEFT | RIGHT

record mouse_action =
  ma_action :: "action_kind option"
  ma_x :: "rat option"
  ma_y :: "rat option"
  ma_repeat :: "int option"
  ma_button :: "mouse_button option"

text \<open>How the main loop was left: \<open>Gtk.main_quit()\<close> on the exit key, \<open>self.destroy()\<close> on a match.\<close>

datatype exit = MainQuit | Destroyed

text \<open>
  The attributes of \<open>OverlayWindow\<close> that the label logic reads or writes. \<open>win_width\<close>
  and \<open>win_height\<close> are \<open>self.width\<close> and \<open>self.height\<close>; \<open>queued_draws\<close> counts the calls
  of \<open>self.drawing_area.queue_draw()\<close>; \<open>exited\<close> records \<open>Gtk.main_quit()\<close> and
  \<open>self.destroy()\<close>.
\<close>

record 'k overlay =
  win_width :: rat
  win_height :: rat
  all_hints :: "('k \<times> child) list"
  hints :: "(pystr \<times> child) list"
  hint_selector_state :: pystr
  mouse_action :: mouse_action
  hint_padding_x :: rat
  hint_height :: rat
  hint_upercase :: bool
  exit_key :: nat
  hover_modifier :: nat
  grab_modifier :: nat
  hints_drawn_offsets :: "(pystr \<times> rat \<times> rat) list"
  queued_draws :: nat
  exited :: "exit option"

text \<open>The entries of \<open>config\<close> that \<open>__init__\<close> reads.\<close>

record config =
  cfg_exit_key :: nat
  cfg_hover_modifier :: nat
  cfg_grab_modifier :: nat

text \<open>
  \<open>__init__\<close>: the label logic's part of the constructor. \<open>generate_hint_labels\<close> can
  raise, so the constructor can.
\<close>

definition init ::
  "pylib \<Rightarrow> rat \<Rightarrow> rat \<Rightarrow> config \<Rightarrow> ('k \<times> child) list \<Rightarrow> mouse_action \<Rightarrow> error + 'k overlay" where
  "init L w h cfg hs ma =
     (case generate_hint_labels (filter_important_hints L w h hs) of
        Inl e \<Rightarrow> Inl e
      | Inr labelled \<Rightarrow>
          Inr \<lparr>win_width = w, win_height = h, all_hints = hs, hints = labelled,
               hint_selector_state = [], mouse_action = ma,
               hint_padding_x = 3, hint_height = 13, hint_upercase = True,
               exit_key = cfg_exit_key cfg, hover_modifier = cfg_hover_modifier cfg,
               grab_modifier = cfg_grab_modifier cfg, hints_drawn_offsets = [],
               queued_draws = 0, exited = None\<rparr>)"

text \<open>
  \<open>on_draw\<close>: the loop over \<open>self.hints.items()\<close>, with the list \<open>drawn\<close> and the
  dictionary \<open>self.hints_drawn_offsets\<close>. \<open>text_width\<close> is the width that
  \<open>cr.text_extents\<close> measures. The painting itself changes no attribute.
\<close>

fun draw_loop ::
  "pylib \<Rightarrow> (pystr \<Rightarrow> rat) \<Rightarrow> 'k overlay \<Rightarrow> (pystr \<times> child) list \<Rightarrow> rect list
   \<Rightarrow> (pystr \<times> rat \<times> rat) list \<Rightarrow> rect list \<times> (pystr \<times> rat \<times> rat) list" where
  "draw_loop L text_width self [] drawn offsets = (drawn, offsets)"
| "draw_loop L text_width self ((key, child) # rest) drawn offsets =
     (let (x0, y0) = relative_position child;
          txt = (if hint_upercase self then py_upper L key else key);
          tw = text_width txt;
          w = tw + 2 * hint_padding_x self;
          h = hint_height self;
          (x, y) = calculate_vimium_position (win_width self) (win_height self) child w h;
          y = avoid_drawn (win_height self) x w h drawn y
      in draw_loop L text_width self rest (drawn @ [(x, y, w, h)])
           (AList.update key (x + w / 2 - x0, y + h / 2 - y0) offsets))"

definition on_draw :: "pylib \<Rightarrow> (pystr \<Rightarrow> rat) \<Rightarrow> 'k overlay \<Rightarrow> rect list \<times> 'k overlay" where
  "on_draw L text_width self =
     (let (drawn, offsets) = draw_loop L text_width self (hints self) [] (hints_drawn_offsets self)
      in (drawn, self\<lparr>hints_drawn_offsets := offsets\<rparr>))"

section \<open>Key presses: \<open>update_hints\<close> and \<open>on_key_press\<close>\<close>

definition update_hints :: "pylib \<Rightarrow> pystr \<Rightarrow> 'k overlay \<Rightarrow> 'k overlay" where
  "update_hints L next_char self =
     (let c = (if hint_upercase self then py_upper L next_char else next_char);
          new = filter (\<lambda>(k, v). prefix (hint_selector_state self @ c)
                                   (if hint_upercase self then py_upper L k else k))
                  (hints self);
          self = (if new \<noteq> []
                  then self\<lparr>hints := new, hint_selector_state := hint_selector_state self @ c\<rparr>
                  else self)
      in self\<lparr>queued_draws := queued_draws self + 1\<rparr>)"

text \<open>
  What \<open>on_key_press\<close> computes from the GDK event before it decides: \<open>keyval\<close> (the
  translated key), \<open>key_lower\<close> (\<open>Gdk.keyval_to_lower(keyval)\<close>) and \<open>mods\<close> (the
  event's modifiers, masked, without the consumed ones).
\<close>

record key_event =
  keyval :: nat
  key_lower :: nat
  mods :: nat

definition KEY_Escape :: nat where
  "KEY_Escape = 65307"

definition KEY_BackSpace :: nat where
  "KEY_BackSpace = 65288"

text \<open>
  The three statements that record a pending qualifier in \<open>mouse_action\<close>: hover, grab, and
  the secondary button of a key whose lower-case form differs.
\<close>

definition record_qualifiers :: "key_event \<Rightarrow> 'k overlay \<Rightarrow> mouse_action" where
  "record_qualifiers event self =
     (let ma = mouse_action self;
          ma = (if mods event = hover_modifier self then ma\<lparr>ma_action := Some Hover\<rparr> else ma);
          ma = (if mods event = grab_modifier self then ma\<lparr>ma_action := Some Grab\<rparr> else ma);
          ma = (if key_lower event \<noteq> keyval event
                then ma\<lparr>ma_action := Some Click, ma_button := Some RIGHT\<rparr> else ma)
      in ma)"

text \<open>
  \<open>int(str(self.mouse_action.get("repeat","")) + ch)\<close>: the decimal digits of the count so
  far followed by the digit \<open>ch\<close>. A negative count keeps its sign, since its text starts
  with the minus sign.
\<close>

definition append_digit :: "pylib \<Rightarrow> int option \<Rightarrow> nat \<Rightarrow> error + int" where
  "append_digit L rep ch =
     (case py_digit_value L ch of
        None \<Rightarrow> Inl ValueError
      | Some d \<Rightarrow>
          (case rep of
             None \<Rightarrow> Inr (int d)
           | Some r \<Rightarrow> Inr (if 0 \<le> r then 10 * r + int d else 10 * r - int d)))"

text \<open>
  The last statement of \<open>on_key_press\<close>: with one label left that equals the typed prefix,
  close the window and fill \<open>mouse_action\<close>. \<open>self.hints_drawn_offsets[hint]\<close> raises
  \<open>KeyError\<close> for a label that was never drawn; the window is destroyed by then.
\<close>

definition resolve :: "pylib \<Rightarrow> 'k overlay \<Rightarrow> 'k overlay \<times> error option" where
  "resolve L self =
     (case hints self of
        [(hint, child)] \<Rightarrow>
          if (hint_upercase self \<and> py_upper L hint = hint_selector_state self)
             \<or> (\<not> hint_upercase self \<and> hint = hint_selector_state self)
          then
            let self = self\<lparr>exited := Some Destroyed\<rparr>;
                (x_abs, y_abs) = absolute_position child
            in (case map_of (hints_drawn_offsets self) hint of
                  None \<Rightarrow> (self, Some KeyError)
                | Some (x_off, y_off) \<Rightarrow>
                    let ma = mouse_action self
                    in (self\<lparr>mouse_action :=
                          \<lparr>ma_action = Some (case ma_action ma of None \<Rightarrow> Click | Some a \<Rightarrow> a),
                           ma_x = Some (x_abs + x_off),
                           ma_y = Some (y_abs + y_off),
                           ma_repeat = Some (case ma_repeat ma of None \<Rightarrow> 1 | Some r \<Rightarrow> r),
                           ma_button = Some (case ma_button ma of None \<Rightarrow> LEFT | Some b \<Rightarrow> b)\<rparr>\<rparr>,
                        None))
          else (self, None)
      | _ \<Rightarrow> (self, None))"

text \<open>
  \<open>on_key_press\<close>. The result is the window after the handler and the exception that ended
  it, if one did: the assignments made before a \<open>raise\<close> stay. \<open>chr(key_lower)\<close> raises
  \<open>ValueError\<close> from \<open>0x110000\<close> on.
\<close>

definition on_key_press :: "pylib \<Rightarrow> key_event \<Rightarrow> 'k overlay \<Rightarrow> 'k overlay \<times> error option" where
  "on_key_press L event self =
     (if keyval event = KEY_Escape \<or> key_lower event = exit_key self
      then (self\<lparr>exited := Some MainQuit\<rparr>, None)
      else if keyval event = KEY_BackSpace \<and> hint_selector_state self \<noteq> []
      then
        let self = self\<lparr>hint_selector_state := butlast (hint_selector_state self)\<rparr>
        in (case generate_hint_labels
                   (filter_important_hints L (win_width self) (win_height self) (all_hints self)) of
              Inl e \<Rightarrow> (self, Some e)
            | Inr labelled \<Rightarrow>
                (self\<lparr>hints := labelled, queued_draws := queued_draws self + 1\<rparr>, None))
      else
        let self = self\<lparr>mouse_action := record_qualifiers event self\<rparr>
        in if 1114112 \<le> key_lower event then (self, Some ValueError)
           else
             let ch = key_lower event;
                 self = (if py_isalpha L ch then update_hints L [ch] self else self)
             in if py_isdigit L ch
                then (case append_digit L (ma_repeat (mouse_action self)) ch of
                        Inl e \<Rightarrow> (self, Some e)
                      | Inr r \<Rightarrow>
                          resolve L (self\<lparr>mouse_action := (mouse_action self)\<lparr>ma_repeat := Some r\<rparr>\<rparr>))
                else resolve L self)"

text \<open>
  The GTK main loop, as far as the overlay sees it: it delivers key presses and draw
  requests to the handlers until one of them has left the loop. An exception in a handler
  is reported and the loop goes on.
\<close>

datatype gtk_event = KeyPress key_event | Draw

fun run :: "pylib \<Rightarrow> (pystr \<Rightarrow> rat) \<Rightarrow> gtk_event list \<Rightarrow> 'k overlay \<Rightarrow> 'k overlay" where
  "run L text_width [] self = self"
| "run L text_width (e # es) self =
     (if exited self \<noteq> None then self
      else run L text_width es
             (case e of KeyPress event \<Rightarrow> fst (on_key_press L event self)
                      | Draw \<Rightarrow> snd (on_draw L text_width self)))"

section \<open>Notions of the specification\<close>

text \<open>
  The strings of length \<open>l\<close> over the alphabet, in the order of a depth-first traversal
  that tries the symbols in alphabet order at every position.
\<close>

fun fixed_length_strings :: "nat \<Rightarrow> pystr list" where
  "fixed_length_strings 0 = [[]]"
| "fixed_length_strings (Suc l) = concat (map (\<lambda>c. map ((#) c) (fixed_length_strings l)) chars)"

text \<open>Symbol \<open>a\<close> comes before symbol \<open>b\<close> in the alphabet.\<close>

definition alphabet_order :: "(nat \<times> nat) set" where
  "alphabet_order = {(a, b). \<exists>i j. i < j \<and> j < length chars \<and> chars ! i = a \<and> chars ! j = b}"

text \<open>Extending \<open>labels\<close> from \<open>xs\<close> until it has \<open>count\<close> elements.\<close>

definition take_upto :: "nat \<Rightarrow> 'a list \<Rightarrow> 'a list \<Rightarrow> 'a list" where
  "take_upto count labels xs = labels @ take (count - length labels) xs"

text \<open>
  The tests of the filter that look at one element alone: size, bounds, skip keywords, and
  the final inclusion test (clickable, or named and larger than 20 by 15, or larger than
  40 by 20).
\<close>

definition passes :: "pylib \<Rightarrow> rat \<Rightarrow> rat \<Rightarrow> child \<Rightarrow> bool" where
  "passes L W H child =
     (let (x, y) = relative_position child;
          role = (case role child of None \<Rightarrow> [] | Some r \<Rightarrow> py_lower L r);
          name = (case name child of None \<Rightarrow> [] | Some n \<Rightarrow> py_strip L n)
      in \<not> (width child < 8 \<or> height child < 8)
         \<and> \<not> (x < - width child \<or> y < - height child \<or> x > W + width child \<or> y > H + height child)
         \<and> \<not> list_ex (\<lambda>k. sublist k role) skip_keywords
         \<and> ((if role = [] then True else list_ex (\<lambda>k. sublist k role) click_keywords)
              \<or> (name \<noteq> [] \<and> width child > 20 \<and> height child > 15)
              \<or> (width child > 40 \<and> height child > 20)))"

text \<open>
  First-seen-wins deduplication: going through the elements in order, an element that passes
  the tests is kept unless its bucket is taken, and then takes its bucket.
\<close>

fun first_in_bucket ::
  "pylib \<Rightarrow> rat \<Rightarrow> rat \<Rightarrow> (int \<times> int) set \<Rightarrow> ('k \<times> child) list \<Rightarrow> ('k \<times> child) list" where
  "first_in_bucket L W H seen [] = []"
| "first_in_bucket L W H seen ((key, child) # rest) =
     (if passes L W H child \<and> pos_key child \<notin> seen
      then (key, child) # first_in_bucket L W H (insert (pos_key child) seen) rest
      else first_in_bucket L W H seen rest)"

text \<open>
  The ASCII part of the library functions, for evaluating the model on concrete input:
  exact on strings of ASCII characters.
\<close>

definition ascii_lib :: pylib where
  "ascii_lib =
     \<lparr>py_lower = map (\<lambda>c. if 65 \<le> c \<and> c \<le> 90 then c + 32 else c),
      py_upper = map (\<lambda>c. if 97 \<le> c \<and> c \<le> 122 then c - 32 else c),
      py_strip = (\<lambda>s. rev (dropWhile (\<lambda>c. c = 32 \<or> (9 \<le> c \<and> c \<le> 13)) (rev
                   (dropWhile (\<lambda>c. c = 32 \<or> (9 \<le> c \<and> c \<le> 13)) s)))),
      py_isalpha = (\<lambda>c. (65 \<le> c \<and> c \<le> 90) \<or> (97 \<le> c \<and> c \<le> 122)),
      py_isdigit = (\<lambda>c. 48 \<le> c \<and> c \<le> 57),
      py_digit_value = (\<lambda>c. if 48 \<le> c \<and> c \<le> 57 then Some (c - 48) else None)\<rparr>"

text \<open>
  Sample input for evaluating the model: an element with a position, a size and a role,
  whose absolute position is its relative position moved by \<open>(100, 50)\<close>; and six
  elements, of which the second shares the bucket of the first, the third is too small,
  the fourth is a scroll bar, the fifth is a small unnamed panel and the sixth is a button
  in the bucket of the fifth.
\<close>

definition element_at :: "rat \<Rightarrow> rat \<Rightarrow> rat \<Rightarrow> rat \<Rightarrow> string option \<Rightarrow> child" where
  "element_at px py w h r =
     \<lparr>width = w, height = h, relative_position = (px, py),
      absolute_position = (px + 100, py + 50), role = map_option str_lit r, name = None\<rparr>"

definition sample_elements :: "(nat \<times> child) list" where
  "sample_elements =
     [(1, element_at 0 0 30 20 None), (2, element_at 3 2 25 18 None),
      (3, element_at 40 0 4 4 None), (4, element_at 100 100 50 30 (Some ''Scroll Bar'')),
      (5, element_at 200 100 30 30 (Some ''panel'')),
      (6, element_at 204 100 50 30 (Some ''push button''))]"

text \<open>
  Normalising a label or a typed character (upper case under the upper-case policy), and
  the labels of a label set whose normalised form starts with a prefix.
\<close>

definition normalized :: "pylib \<Rightarrow> bool \<Rightarrow> pystr \<Rightarrow> pystr" where
  "normalized L upercase s = (if upercase then py_upper L s else s)"

definition matching :: "pylib \<Rightarrow> bool \<Rightarrow> pystr \<Rightarrow> (pystr \<times> child) list \<Rightarrow> (pystr \<times> child) list" where
  "matching L upercase p labels = filter (\<lambda>(k, v). prefix p (normalized L upercase k)) labels"


text \<open>
  A window as \<open>__init__\<close> leaves it: the labels are those generated from the filtered
  elements, nothing is typed, nothing is drawn and the main loop runs.
\<close>

definition fresh_window :: "pylib \<Rightarrow> 'k overlay \<Rightarrow> bool" where
  "fresh_window L s \<longleftrightarrow>
     generate_hint_labels (filter_important_hints L (win_width s) (win_height s) (all_hints s))
       = Inr (hints s)
     \<and> hint_selector_state s = [] \<and> exited s = None"


text \<open>
  More sample input: a row of \<open>n\<close> elements of size 10 by 10, ten units apart, with no
  role; the events of the keys \<open>s\<close>, \<open>a\<close> and BackSpace without modifiers; a renderer
  for which every text is 8 units wide; and the window that \<open>__init__\<close> builds for a row
  of 197 elements on an overlay of 2000 by 100, with Escape as the exit key.
\<close>

definition element_row :: "nat \<Rightarrow> (nat \<times> child) list" where
  "element_row n = map (\<lambda>i. (i, element_at (10 * of_nat i) 0 10 10 None)) [0..<n]"

definition key_s :: key_event where
  "key_s = \<lparr>keyval = 115, key_lower = 115, mods = 0\<rparr>"


definition key_backspace :: key_event where
  "key_backspace = \<lparr>keyval = KEY_BackSpace, key_lower = KEY_BackSpace, mods = 0\<rparr>"

definition fixed_width :: "pystr \<Rightarrow> rat" where
  "fixed_width txt = 8"

definition sample_config :: config where
  "sample_config = \<lparr>cfg_exit_key = KEY_Escape, cfg_hover_modifier = 4, cfg_grab_modifier = 8\<rparr>"

definition no_action :: mouse_action where
  "no_action = \<lparr>ma_action = None, ma_x = None, ma_y = None, ma_repeat = None, ma_button = None\<rparr>"

definition window_of :: "error + 'k overlay \<Rightarrow> 'k overlay option" where
  "window_of r = (case r of Inl e \<Rightarrow> None | Inr s \<Rightarrow> Some s)"

definition sample_window :: "nat overlay" where
  "sample_window =
     \<lparr>win_width = 2000, win_height = 100, all_hints = element_row 197,
      hints = zip (take 197 (fixed_length_strings 3)) (map snd (element_row 197)),
      hint_selector_state = [], mouse_action = no_action,
      hint_padding_x = 3, hint_height = 13, hint_upercase = True,
      exit_key = KEY_Escape, hover_modifier = 4, grab_modifier = 8,
      hints_drawn_offsets = [], queued_draws = 0, exited = None\<rparr>"

text \<open>
  The event of the key \<open>d\<close>, and a small window: the one \<open>__init__\<close> builds for
  \<open>sample_elements\<close> on an overlay of 800 by 600, with the labels \<open>S\<close> and \<open>A\<close>.
\<close>

definition key_d :: key_event where
  "key_d = \<lparr>keyval = 100, key_lower = 100, mods = 0\<rparr>"

definition small_window :: "nat overlay" where
  "small_window =
     \<lparr>win_width = 800, win_height = 600, all_hints = sample_elements,
      hints = [(str_lit ''S'', element_at 0 0 30 20 None),
               (str_lit ''A'', element_at 204 100 50 30 (Some ''push button''))],
      hint_selector_state = [], mouse_action = no_action,
      hint_padding_x = 3, hint_height = 13, hint_upercase = True,
      exit_key = KEY_Escape, hover_modifier = 4, grab_modifier = 8,
      hints_drawn_offsets = [], queued_draws = 0, exited = None\<rparr>"



section \<open>The label generator\<close>

lemma length_chars: "length chars = 14"
  by (simp add: chars_def str_lit_def)

lemma distinct_chars: "distinct chars"
  by (simp add: chars_def str_lit_def)

lemma length_fixed_length_strings: "length (fixed_length_strings l) = 14 ^ l"
proof (induction l)
  case 0
  show ?case by simp
next
  case (Suc l)
  have "length (fixed_length_strings (Suc l)) = (\<Sum>c\<leftarrow>chars. 14 ^ l)"
    by (simp add: length_concat comp_def Suc)
  also have "\<dots> = 14 * 14 ^ l"
    by (simp add: sum_list_triv length_chars)
  finally show ?case by simp
qed

lemma set_fixed_length_strings:
  "set (fixed_length_strings l) = {w. length w = l \<and> set w \<subseteq> set chars}"
proof (induction l)
  case 0
  show ?case by auto
next
  case (Suc l)
  show ?case
  proof (rule set_eqI)
    fix w
    show "w \<in> set (fixed_length_strings (Suc l)) \<longleftrightarrow> w \<in> {w. length w = Suc l \<and> set w \<subseteq> set chars}"
      using Suc by (cases w) auto
  qed
qed

lemma distinct_fixed_length_strings: "distinct (fixed_length_strings l)"
proof (induction l)
  case 0
  show ?case by simp
next
  case (Suc l)
  have "distinct (concat (map (\<lambda>c. map ((#) c) (fixed_length_strings l)) cs))" if "distinct cs" for cs
    using that
  proof (induction cs)
    case Nil
    show ?case by simp
  next
    case (Cons c cs)
    then show ?case using Suc by (auto simp: distinct_map inj_on_def)
  qed
  then show ?case using distinct_chars by simp
qed

lemma take_upto_append:
  "take_upto count (take_upto count labels xs) ys = take_upto count labels (xs @ ys)"
  by (auto simp: take_upto_def min_def)

lemma length_take_upto_ge: "count \<le> length labels \<Longrightarrow> take_upto count labels xs = labels"
  by (simp add: take_upto_def)

lemma rec_fold:
  assumes step: "\<And>labels c. length labels < count \<Longrightarrow>
      rec count labels (p @ [c]) l = take_upto count labels (map (\<lambda>w. p @ c # w) (fixed_length_strings l))"
  shows "fold (\<lambda>c labels. if length labels < count then rec count labels (p @ [c]) l else labels) cs labels
         = take_upto count labels (concat (map (\<lambda>c. map (\<lambda>w. p @ c # w) (fixed_length_strings l)) cs))"
proof (induction cs arbitrary: labels)
  case Nil
  show ?case by (simp add: take_upto_def)
next
  case (Cons c cs)
  show ?case
  proof (cases "length labels < count")
    case True
    then show ?thesis
      by (simp add: Cons step take_upto_append)
  next
    case False
    then show ?thesis
      by (simp add: Cons) (simp add: take_upto_def)
  qed
qed

lemma rec_eq:
  "length labels < count \<Longrightarrow>
   rec count labels p l = take_upto count labels (map (\<lambda>w. p @ w) (fixed_length_strings l))"
proof (induction l arbitrary: labels p)
  case 0
  then show ?case by (simp add: take_upto_def)
next
  case (Suc l)
  have "map (\<lambda>w. p @ w) (fixed_length_strings (Suc l))
        = concat (map (\<lambda>c. map (\<lambda>w. p @ c # w) (fixed_length_strings l)) chars)"
    by (simp add: map_concat comp_def)
  moreover have "rec count labels (p @ [c]) l
        = take_upto count labels (map (\<lambda>w. p @ c # w) (fixed_length_strings l))"
    if "length labels < count" for labels c
    using Suc.IH [OF that, of "p @ [c]"] by simp
  ultimately show ?case
    using rec_fold [of count p l chars labels] by simp
qed

lemma label_length_spec:
  "l \<le> label_length count l \<and> count \<le> 14 ^ label_length count l
   \<and> (\<forall>l'. l \<le> l' \<and> l' < label_length count l \<longrightarrow> 14 ^ l' < count)"
proof (induction count l rule: label_length.induct)
  case (1 count l)
  show ?case
  proof (cases "length chars ^ l < count")
    case True
    have eq: "label_length count l = label_length count (l + 1)"
      using True by (subst label_length.simps) simp
    have small: "14 ^ l < count" using True by (simp add: length_chars)
    have ih: "l + 1 \<le> label_length count (l + 1)"
      "count \<le> 14 ^ label_length count (l + 1)"
      "\<And>l'. l + 1 \<le> l' \<Longrightarrow> l' < label_length count (l + 1) \<Longrightarrow> 14 ^ l' < count"
      using "1.IH" [OF True] by auto
    have "14 ^ l' < count" if "l \<le> l'" "l' < label_length count (l + 1)" for l'
    proof (cases "l' = l")
      case True
      then show ?thesis using small by simp
    next
      case False
      then have "l + 1 \<le> l'" using that(1) by simp
      then show ?thesis using ih(3) that(2) by simp
    qed
    then show ?thesis
      unfolding eq using ih(1,2) by auto
  next
    case False
    have eq: "label_length count l = l"
      using False by (subst label_length.simps) simp
    show ?thesis unfolding eq using False by (simp add: length_chars)
  qed
qed

lemma hint_labels_eq:
  "hint_labels count = take count (fixed_length_strings (label_length count 1))"
proof (cases "label_length count 1 = 1")
  case True
  have "fixed_length_strings 1 = map (\<lambda>c. [c]) chars"
    by (simp add: numeral_eq_Suc concat_map_singleton)
  then show ?thesis
    by (simp add: hint_labels_def True take_map del: One_nat_def)
next
  case False
  have "14 ^ 1 < count"
    using label_length_spec [of 1 count] False
    by (metis le_neq_implies_less order_refl)
  then have "0 < count" by simp
  then show ?thesis
    using False by (simp add: hint_labels_def rec_eq take_upto_def)
qed

lemma update_fresh: "k \<notin> fst ` set al \<Longrightarrow> AList.update k v al = al @ [(k, v)]"
  by (induction al) auto

lemma label_dict_zip:
  "distinct labels \<Longrightarrow> i + length vals \<le> length labels \<Longrightarrow> map fst acc = take i labels \<Longrightarrow>
   label_dict labels i vals acc = Inr (acc @ zip (drop i labels) vals)"
proof (induction vals arbitrary: i acc)
  case Nil
  show ?case by simp
next
  case (Cons v vals)
  from Cons.prems have i: "i < length labels" by simp
  have "labels ! i \<notin> set (take i labels)"
    using Cons.prems(1) i by (metis distinct_take id_take_nth_drop not_distinct_conv_prefix)
  then have fresh: "labels ! i \<notin> fst ` set acc"
    using Cons.prems(3) by (metis list.set_map)
  have upd: "AList.update (labels ! i) v acc = acc @ [(labels ! i, v)]"
    by (rule update_fresh [OF fresh])
  have keys: "map fst (acc @ [(labels ! i, v)]) = take (Suc i) labels"
    using Cons.prems(3) i by (simp add: take_Suc_conv_app_nth)
  have "label_dict labels (Suc i) vals (acc @ [(labels ! i, v)])
        = Inr ((acc @ [(labels ! i, v)]) @ zip (drop (Suc i) labels) vals)"
    using Cons.prems(1,2) keys by (intro Cons.IH) simp_all
  moreover have "drop i labels = labels ! i # drop (Suc i) labels"
    using i by (simp add: Cons_nth_drop_Suc)
  ultimately show ?case using i upd by simp
qed

lemma sorted_chars: "sorted_wrt (\<lambda>a b. (a, b) \<in> alphabet_order) chars"
  unfolding sorted_wrt_iff_nth_less alphabet_order_def by auto

lemma sorted_fixed_length_strings:
  "sorted_wrt (\<lambda>u v. (u, v) \<in> lexord alphabet_order) (fixed_length_strings l)"
proof (induction l)
  case 0
  show ?case by simp
next
  case (Suc l)
  have "sorted_wrt (\<lambda>u v. (u, v) \<in> lexord alphabet_order)
          (concat (map (\<lambda>c. map ((#) c) (fixed_length_strings l)) cs))"
    if "sorted_wrt (\<lambda>a b. (a, b) \<in> alphabet_order) cs" for cs
    using that
  proof (induction cs)
    case Nil
    show ?case by simp
  next
    case (Cons c cs)
    have "sorted_wrt (\<lambda>u v. (u, v) \<in> lexord alphabet_order) (map ((#) c) (fixed_length_strings l))"
      unfolding sorted_wrt_map by (rule sorted_wrt_mono_rel [OF _ Suc]) simp
    with Cons show ?case
      by (auto simp: sorted_wrt_append)
  qed
  then show ?case using sorted_chars by simp
qed

text \<open>
  C1. For a mapping of \<open>n\<close> elements, \<open>generate_hint_labels\<close> returns (without raising)
  the first \<open>n\<close> strings of length \<open>L\<close> in depth-first alphabet order, paired with the
  elements in the mapping's insertion order: \<open>n\<close> distinct labels, all of length \<open>L\<close>,
  where \<open>L \<ge> 1\<close> is the least length with \<open>14 ^ L \<ge> n\<close> (so \<open>L = 1\<close> for \<open>n \<le> 14\<close>).
  The enumeration holds every string of length \<open>L\<close> over the alphabet and is sorted in
  the lexicographic order of the alphabet. The empty mapping gives the empty mapping.
\<close>

theorem generate_hint_labels_correct:
  "generate_hint_labels hs
     = Inr (zip (take (length hs) (fixed_length_strings (label_length (length hs) 1)))
              (map snd hs))
   \<and> length (hint_labels (length hs)) = length hs
   \<and> distinct (hint_labels (length hs))
   \<and> (\<forall>w \<in> set (hint_labels (length hs)). length w = label_length (length hs) 1)
   \<and> hint_labels (length hs)
       = take (length hs) (fixed_length_strings (label_length (length hs) 1))
   \<and> 1 \<le> label_length (length hs) 1
   \<and> length hs \<le> 14 ^ label_length (length hs) 1
   \<and> (\<forall>l'. 1 \<le> l' \<and> l' < label_length (length hs) 1 \<longrightarrow> 14 ^ l' < length hs)
   \<and> (length hs \<le> 14 \<longrightarrow> label_length (length hs) 1 = 1)
   \<and> set (fixed_length_strings (label_length (length hs) 1))
       = {w. length w = label_length (length hs) 1 \<and> set w \<subseteq> set chars}
   \<and> sorted_wrt (\<lambda>u v. (u, v) \<in> lexord alphabet_order)
        (fixed_length_strings (label_length (length hs) 1))
   \<and> (hs = [] \<longrightarrow> generate_hint_labels hs = Inr [])"
proof -
  define n where "n = length hs"
  define L where "L = label_length n 1"
  define labels where "labels = hint_labels n"
  have spec: "1 \<le> L" "n \<le> 14 ^ L" "\<And>l'. 1 \<le> l' \<Longrightarrow> l' < L \<Longrightarrow> 14 ^ l' < n"
    using label_length_spec [of 1 n] by (auto simp: L_def)
  have labels_eq: "labels = take n (fixed_length_strings L)"
    by (simp add: labels_def L_def hint_labels_eq)
  have len: "length labels = n"
    using spec(2) by (simp add: labels_eq length_fixed_length_strings)
  have dist: "distinct labels"
    by (simp add: labels_eq distinct_fixed_length_strings)
  have wlen: "\<forall>w \<in> set labels. length w = L"
    using set_fixed_length_strings [of L] by (auto simp: labels_eq dest: in_set_takeD)
  have one: "L = 1" if "n \<le> 14"
  proof (rule ccontr)
    assume "L \<noteq> 1"
    then have "14 ^ 1 < n" using spec(1) by (intro spec(3)) simp_all
    then show False using that by simp
  qed
  have gen: "generate_hint_labels hs = Inr (zip labels (map snd hs))"
    unfolding generate_hint_labels_def
    using label_dict_zip [of labels 0 "map snd hs" "[]"] dist len
    by (simp add: labels_def n_def)
  have "generate_hint_labels hs = Inr []" if "hs = []"
    using gen that by simp
  then have empty: "hs = [] \<longrightarrow> generate_hint_labels hs = Inr []"
    by blast
  have minimal: "\<forall>l'. 1 \<le> l' \<and> l' < L \<longrightarrow> 14 ^ l' < n"
    using spec(3) by blast
  have one': "n \<le> 14 \<longrightarrow> L = 1"
    using one by blast
  have gen': "generate_hint_labels hs = Inr (zip (take n (fixed_length_strings L)) (map snd hs))"
    using gen labels_eq by simp
  note facts = gen' len dist wlen labels_eq spec(1,2) minimal one'
      set_fixed_length_strings [of L] sorted_fixed_length_strings [of L] empty
  show ?thesis
    using facts unfolding labels_def L_def n_def by (intro conjI)
qed

theorem generate_hint_labels_correct_witness:
  "generate_hint_labels [(0::nat, 10::nat), (1, 20), (2, 30)]
     = Inr [(str_lit ''S'', 10), (str_lit ''A'', 20), (str_lit ''D'', 30)]
   \<and> label_length (length (map (\<lambda>i. (i, i)) [0..<15::nat])) 1 = 2
   \<and> (14::nat) ^ 1 < length (map (\<lambda>i. (i, i)) [0..<15::nat])
   \<and> generate_hint_labels ([] :: (nat \<times> nat) list) = Inr []"
proof -
  let ?h3 = "[(0::nat, 10::nat), (1, 20), (2, 30)]"
  let ?h15 = "map (\<lambda>i. (i, i)) [0..<15::nat]"
  have l15: "label_length (length ?h15) 1 = 2" by code_simp
  have z3: "zip (take (length ?h3) (fixed_length_strings (label_length (length ?h3) 1))) (map snd ?h3)
            = [(str_lit ''S'', 10), (str_lit ''A'', 20), (str_lit ''D'', 30)]"
    by code_simp
  have "generate_hint_labels ?h3
        = Inr (zip (take (length ?h3) (fixed_length_strings (label_length (length ?h3) 1))) (map snd ?h3))"
    using generate_hint_labels_correct [of ?h3] by (rule conjunct1)
  then have g3: "generate_hint_labels ?h3
        = Inr [(str_lit ''S'', 10), (str_lit ''A'', 20), (str_lit ''D'', 30)]"
    by (simp only: z3)
  have "\<forall>l'. 1 \<le> l' \<and> l' < label_length (length ?h15) 1 \<longrightarrow> 14 ^ l' < length ?h15"
    using generate_hint_labels_correct [of ?h15] by blast
  then have m15: "(14::nat) ^ 1 < length ?h15"
    unfolding l15 by (elim allE [of _ 1]) simp
  have "([] :: (nat \<times> nat) list) = [] \<longrightarrow> generate_hint_labels ([] :: (nat \<times> nat) list) = Inr []"
    using generate_hint_labels_correct [of "[] :: (nat \<times> nat) list"] by blast
  then have g0: "generate_hint_labels ([] :: (nat \<times> nat) list) = Inr []" by simp
  show ?thesis
    using g3 l15 m15 g0 by (intro conjI)
qed

section \<open>The element filter\<close>

lemma filter_loop_first_in_bucket:
  "distinct (map fst hs) \<Longrightarrow> fst ` set acc \<inter> fst ` set hs = {} \<Longrightarrow>
   filter_loop L W H hs seen acc = acc @ first_in_bucket L W H seen hs"
proof (induction hs arbitrary: seen acc)
  case Nil
  show ?case by simp
next
  case (Cons kc hs)
  obtain key child where kc: "kc = (key, child)" by (cases kc)
  have fresh: "key \<notin> fst ` set acc" using Cons.prems(2) kc by auto
  have d: "distinct (map fst hs)" using Cons.prems(1) by simp
  have keep: "filter_loop L W H hs seen acc = acc @ first_in_bucket L W H seen hs"
    using Cons.prems(2) by (intro Cons.IH [OF d]) auto
  have "fst ` set (acc @ [(key, child)]) \<inter> fst ` set hs = {}"
    using Cons.prems kc by auto
  then have add: "filter_loop L W H hs (insert (pos_key child) seen) (acc @ [(key, child)])
      = (acc @ [(key, child)]) @ first_in_bucket L W H (insert (pos_key child) seen) hs"
    by (rule Cons.IH [OF d])
  show ?case
  proof (cases "passes L W H child \<and> pos_key child \<notin> seen")
    case True
    then show ?thesis
      using add by (simp add: kc passes_def Let_def split_def update_fresh [OF fresh])
  next
    case False
    then show ?thesis
      using keep by (auto simp: kc passes_def Let_def split_def)
  qed
qed

lemma first_in_bucket_subseq: "subseq (first_in_bucket L W H seen hs) hs"
proof (induction hs arbitrary: seen)
  case Nil
  show ?case by simp
next
  case (Cons kc hs)
  obtain key child where kc: "kc = (key, child)" by (cases kc)
  show ?case
    unfolding kc using Cons.IH [of seen] Cons.IH [of "insert (pos_key child) seen"]
    by (simp add: list_emb_Cons)
qed

lemma first_in_bucket_passes:
  "kc \<in> set (first_in_bucket L W H seen hs) \<Longrightarrow> passes L W H (snd kc) \<and> pos_key (snd kc) \<notin> seen"
proof (induction hs arbitrary: seen)
  case Nil
  then show ?case by simp
next
  case (Cons h hs)
  obtain key child where h: "h = (key, child)" by (cases h)
  show ?case
  proof (cases "passes L W H child \<and> pos_key child \<notin> seen")
    case True
    then have "kc = (key, child) \<or> kc \<in> set (first_in_bucket L W H (insert (pos_key child) seen) hs)"
      using Cons.prems by (simp add: h)
    then show ?thesis
    proof
      assume "kc = (key, child)"
      then show ?thesis using True by simp
    next
      assume "kc \<in> set (first_in_bucket L W H (insert (pos_key child) seen) hs)"
      from Cons.IH [OF this] show ?thesis by simp
    qed
  next
    case False
    then have "kc \<in> set (first_in_bucket L W H seen hs)"
      using Cons.prems by (auto simp: h)
    from Cons.IH [OF this] show ?thesis .
  qed
qed

lemma first_in_bucket_distinct:
  "distinct (map (pos_key \<circ> snd) (first_in_bucket L W H seen hs))"
proof (induction hs arbitrary: seen)
  case Nil
  show ?case by simp
next
  case (Cons kc hs)
  obtain key child where kc: "kc = (key, child)" by (cases kc)
  have "pos_key (snd kc') \<noteq> pos_key child"
    if "kc' \<in> set (first_in_bucket L W H (insert (pos_key child) seen) hs)" for kc'
    using first_in_bucket_passes [OF that] by auto
  then have "pos_key child \<notin> (pos_key \<circ> snd) ` set (first_in_bucket L W H (insert (pos_key child) seen) hs)"
    by force
  then show ?case using Cons.IH by (simp add: kc)
qed

lemma first_in_bucket_id:
  "\<forall>kc \<in> set xs. passes L W H (snd kc) \<and> pos_key (snd kc) \<notin> seen \<Longrightarrow>
   distinct (map (pos_key \<circ> snd) xs) \<Longrightarrow> first_in_bucket L W H seen xs = xs"
proof (induction xs arbitrary: seen)
  case Nil
  show ?case by simp
next
  case (Cons kc xs)
  obtain key child where kc: "kc = (key, child)" by (cases kc)
  have "pos_key child \<notin> (pos_key \<circ> snd) ` set xs"
    using Cons.prems(2) by (simp add: kc)
  then have "pos_key (snd kc') \<noteq> pos_key child" if "kc' \<in> set xs" for kc'
    using that by force
  then have "\<forall>kc \<in> set xs. passes L W H (snd kc) \<and> pos_key (snd kc) \<notin> insert (pos_key child) seen"
    using Cons.prems(1) by simp
  then have "first_in_bucket L W H (insert (pos_key child) seen) xs = xs"
    using Cons.prems(2) by (intro Cons.IH) simp_all
  then show ?case using Cons.prems(1) by (simp add: kc)
qed

lemma first_in_bucket_mem:
  "kc \<in> set (first_in_bucket L W H seen hs) \<longleftrightarrow>
   (\<exists>i<length hs. hs ! i = kc \<and> passes L W H (snd kc) \<and> pos_key (snd kc) \<notin> seen
      \<and> (\<forall>j<i. passes L W H (snd (hs ! j)) \<longrightarrow> pos_key (snd (hs ! j)) \<noteq> pos_key (snd kc)))"
proof (induction hs arbitrary: seen)
  case Nil
  show ?case by simp
next
  case (Cons h hs)
  obtain key child where h: "h = (key, child)" by (cases h)
  show ?case
  proof (cases "passes L W H child \<and> pos_key child \<notin> seen")
    case True
    then show ?thesis
      unfolding h by (simp add: Cons.IH Ex_less_Suc2 All_less_Suc2 del: length_Cons) (auto simp: Ex_less_Suc2 All_less_Suc2)
  next
    case False
    then show ?thesis
      unfolding h by (simp add: Cons.IH Ex_less_Suc2 All_less_Suc2) auto
  qed
qed

lemma first_in_bucket_keys:
  "distinct (map fst hs) \<Longrightarrow> distinct (map fst (first_in_bucket L W H seen hs))"
proof (induction hs arbitrary: seen)
  case Nil
  show ?case by simp
next
  case (Cons kc hs)
  obtain key child where kc: "kc = (key, child)" by (cases kc)
  have "kc' \<in> set hs" if "kc' \<in> set (first_in_bucket L W H seen' hs)" for kc' seen'
    using that first_in_bucket_mem [of kc' L W H seen' hs] by auto
  then have "key \<notin> fst ` set (first_in_bucket L W H seen' hs)" for seen'
    using Cons.prems by (force simp: kc)
  then show ?case using Cons by (simp add: kc)
qed

lemma filter_important_hints_eq:
  "distinct (map fst hs) \<Longrightarrow> filter_important_hints L W H hs = first_in_bucket L W H {} hs"
  using filter_loop_first_in_bucket [of hs "[]" L W H "{}"]
  by (simp add: filter_important_hints_def)

text \<open>
  C5. The filter is idempotent: filtering the result of the filter again, with the same
  bounds, returns it unchanged. (A dictionary has pairwise distinct keys.)
\<close>

theorem filter_important_hints_idempotent:
  assumes "distinct (map fst hs)"
  shows "filter_important_hints L W H (filter_important_hints L W H hs)
         = filter_important_hints L W H hs"
proof -
  let ?r = "first_in_bucket L W H {} hs"
  have keys: "distinct (map fst ?r)"
    using assms by (rule first_in_bucket_keys)
  have "\<forall>kc \<in> set ?r. passes L W H (snd kc) \<and> pos_key (snd kc) \<notin> {}"
    using first_in_bucket_passes [of _ L W H "{}" hs] by simp
  then have "first_in_bucket L W H {} ?r = ?r"
    using first_in_bucket_distinct [of L W H "{}" hs] by (rule first_in_bucket_id)
  then show ?thesis
    by (simp add: filter_important_hints_eq assms keys)
qed

theorem filter_important_hints_idempotent_witness:
  "distinct (map fst sample_elements)
   \<and> map fst (filter_important_hints ascii_lib 800 600 sample_elements) = [1, 6]
   \<and> filter_important_hints ascii_lib 800 600 (filter_important_hints ascii_lib 800 600 sample_elements)
       = filter_important_hints ascii_lib 800 600 sample_elements"
proof -
  have d: "distinct (map fst sample_elements)" by code_simp
  have r: "map fst (filter_important_hints ascii_lib 800 600 sample_elements) = [1, 6]" by code_simp
  show ?thesis
    using d r filter_important_hints_idempotent [OF d, of ascii_lib 800 600] by (intro conjI)
qed

text \<open>
  C6. No two elements that survive the filter share a bucket \<open>(round(x/10), round(y/10))\<close>,
  the survivors keep their order, and first seen wins: an element survives exactly when it
  passes the filter's other tests and no element before it that passes them has its bucket.
\<close>

theorem filter_important_hints_dedup:
  assumes "distinct (map fst hs)"
  shows "distinct (map (pos_key \<circ> snd) (filter_important_hints L W H hs))
     \<and> subseq (filter_important_hints L W H hs) hs
     \<and> (\<forall>i<length hs. hs ! i \<in> set (filter_important_hints L W H hs) \<longleftrightarrow>
           passes L W H (snd (hs ! i))
           \<and> (\<forall>j<i. passes L W H (snd (hs ! j)) \<longrightarrow> pos_key (snd (hs ! j)) \<noteq> pos_key (snd (hs ! i))))"
proof -
  have eq: "filter_important_hints L W H hs = first_in_bucket L W H {} hs"
    using assms by (rule filter_important_hints_eq)
  have d: "distinct hs" using assms by (simp add: distinct_map)
  have mem: "hs ! i \<in> set (first_in_bucket L W H {} hs) \<longleftrightarrow>
           passes L W H (snd (hs ! i))
           \<and> (\<forall>j<i. passes L W H (snd (hs ! j)) \<longrightarrow> pos_key (snd (hs ! j)) \<noteq> pos_key (snd (hs ! i)))"
    (is "?lhs \<longleftrightarrow> ?rhs") if i: "i < length hs" for i
  proof
    assume ?lhs
    then obtain i' where i': "i' < length hs" "hs ! i' = hs ! i" "passes L W H (snd (hs ! i))"
      "\<forall>j<i'. passes L W H (snd (hs ! j)) \<longrightarrow> pos_key (snd (hs ! j)) \<noteq> pos_key (snd (hs ! i))"
      unfolding first_in_bucket_mem by blast
    have "i' = i" using d i i'(1,2) by (simp add: nth_eq_iff_index_eq)
    then show ?rhs using i' by simp
  next
    assume ?rhs
    then show ?lhs unfolding first_in_bucket_mem using i by auto
  qed
  show ?thesis
    unfolding eq using first_in_bucket_distinct [of L W H "{}" hs]
      first_in_bucket_subseq [of L W H "{}" hs] mem by blast
qed

theorem filter_important_hints_dedup_witness:
  "distinct (map fst sample_elements)
   \<and> distinct (map (pos_key \<circ> snd) (filter_important_hints ascii_lib 800 600 sample_elements))
   \<and> (1::nat) < length sample_elements \<and> (0::nat) < 1
   \<and> passes ascii_lib 800 600 (snd (sample_elements ! 0))
   \<and> pos_key (snd (sample_elements ! 0)) = pos_key (snd (sample_elements ! 1))
   \<and> sample_elements ! 1 \<notin> set (filter_important_hints ascii_lib 800 600 sample_elements)"
proof -
  have d: "distinct (map fst sample_elements)" by code_simp
  have len: "(1::nat) < length sample_elements" by code_simp
  have p0: "passes ascii_lib 800 600 (snd (sample_elements ! 0))" by code_simp
  have b: "pos_key (snd (sample_elements ! 0)) = pos_key (snd (sample_elements ! 1))" by code_simp
  note inst = filter_important_hints_dedup [OF d, of ascii_lib 800 600]
  have dist: "distinct (map (pos_key \<circ> snd) (filter_important_hints ascii_lib 800 600 sample_elements))"
    using inst by (rule conjunct1)
  have "\<forall>i<length sample_elements.
          sample_elements ! i \<in> set (filter_important_hints ascii_lib 800 600 sample_elements) \<longleftrightarrow>
           passes ascii_lib 800 600 (snd (sample_elements ! i))
           \<and> (\<forall>j<i. passes ascii_lib 800 600 (snd (sample_elements ! j))
                  \<longrightarrow> pos_key (snd (sample_elements ! j)) \<noteq> pos_key (snd (sample_elements ! i)))"
    using inst by blast
  then have "sample_elements ! 1 \<in> set (filter_important_hints ascii_lib 800 600 sample_elements) \<longrightarrow>
      (\<forall>j<1. passes ascii_lib 800 600 (snd (sample_elements ! j))
                  \<longrightarrow> pos_key (snd (sample_elements ! j)) \<noteq> pos_key (snd (sample_elements ! 1)))"
    using len by blast
  then have out: "sample_elements ! 1 \<notin> set (filter_important_hints ascii_lib 800 600 sample_elements)"
    using p0 b by auto
  show ?thesis
    using d dist len p0 b out by simp
qed

section \<open>The selection state machine\<close>

lemma update_hints_eq:
  "update_hints L c self =
     (let p = hint_selector_state self @ normalized L (hint_upercase self) c;
          new = matching L (hint_upercase self) p (hints self)
      in if new \<noteq> [] then self\<lparr>hints := new, hint_selector_state := p, queued_draws := queued_draws self + 1\<rparr>
         else self\<lparr>queued_draws := queued_draws self + 1\<rparr>)"
  by (simp add: update_hints_def normalized_def matching_def Let_def)



lemma resolve_fields:
  "hints (fst (resolve L self)) = hints self"
  "hint_selector_state (fst (resolve L self)) = hint_selector_state self"
  "all_hints (fst (resolve L self)) = all_hints self"
  "win_width (fst (resolve L self)) = win_width self"
  "win_height (fst (resolve L self)) = win_height self"
  "hint_upercase (fst (resolve L self)) = hint_upercase self"
  "hints_drawn_offsets (fst (resolve L self)) = hints_drawn_offsets self"
  "queued_draws (fst (resolve L self)) = queued_draws self"
  by (auto simp: resolve_def Let_def split: list.splits prod.splits option.splits)

lemma on_draw_fields:
  "hints (snd (on_draw L tw self)) = hints self"
  "hint_selector_state (snd (on_draw L tw self)) = hint_selector_state self"
  "all_hints (snd (on_draw L tw self)) = all_hints self"
  "win_width (snd (on_draw L tw self)) = win_width self"
  "win_height (snd (on_draw L tw self)) = win_height self"
  "hint_upercase (snd (on_draw L tw self)) = hint_upercase self"
  "mouse_action (snd (on_draw L tw self)) = mouse_action self"
  "exited (snd (on_draw L tw self)) = exited self"
  "queued_draws (snd (on_draw L tw self)) = queued_draws self"
  by (simp_all add: on_draw_def split_def Let_def)
















section \<open>The sample inputs\<close>

lemma generate_hint_labels_zip:
  "generate_hint_labels hs
     = Inr (zip (take (length hs) (fixed_length_strings (label_length (length hs) 1))) (map snd hs))"
proof -
  let ?labels = "take (length hs) (fixed_length_strings (label_length (length hs) 1))"
  have "length hs \<le> 14 ^ label_length (length hs) 1"
    using label_length_spec [of 1 "length hs"] by simp
  then have len: "length ?labels = length hs"
    by (simp add: length_fixed_length_strings)
  have "distinct ?labels"
    by (simp add: distinct_fixed_length_strings)
  then show ?thesis
    unfolding generate_hint_labels_def hint_labels_eq
    using label_dict_zip [of ?labels 0 "map snd hs" "[]"] len by simp
qed

lemma py_round_of_int: "py_round (of_int i) = i"
  by (simp add: py_round_def)

lemma passes_element_row:
  assumes "10 * of_nat i \<le> W + 10" and "0 \<le> H"
  shows "passes L W H (element_at (10 * of_nat i) 0 10 10 None)"
  using assms
  by (simp add: passes_def element_at_def skip_keywords_def str_lit_def)

lemma pos_key_element_row: "pos_key (element_at (10 * of_nat i) 0 10 10 None) = (int i, 0)"
proof -
  have "py_round (of_int (int i)) = int i" by (rule py_round_of_int)
  moreover have "py_round (of_int 0) = 0" by (rule py_round_of_int)
  ultimately show ?thesis
    by (simp add: pos_key_def element_at_def)
qed

lemma filter_element_row:
  assumes "10 * of_nat n \<le> W + 10" and "0 \<le> H"
  shows "filter_important_hints L W H (element_row n) = element_row n"
proof -
  have keys: "distinct (map fst (element_row n))"
    by (simp add: element_row_def comp_def)
  have buckets: "map (pos_key \<circ> snd) (element_row n) = map (\<lambda>i. (int i, 0)) [0..<n]"
    by (simp add: element_row_def comp_def pos_key_element_row)
  have "distinct (map (\<lambda>i. (int i, 0::int)) [0..<n])"
    by (simp add: distinct_map inj_on_def)
  then have d: "distinct (map (pos_key \<circ> snd) (element_row n))"
    by (simp only: buckets)
  have "passes L W H (snd kc) \<and> pos_key (snd kc) \<notin> {}" if "kc \<in> set (element_row n)" for kc
  proof -
    from that obtain i where i: "i < n" "kc = (i, element_at (10 * of_nat i) 0 10 10 None)"
      by (auto simp: element_row_def)
    have "(10::rat) * of_nat i \<le> 10 * of_nat n" using i(1) by simp
    then have "10 * of_nat i \<le> W + 10" using assms(1) by simp
    then show ?thesis using passes_element_row [OF _ assms(2)] i(2) by simp
  qed
  then have "first_in_bucket L W H {} (element_row n) = element_row n"
    using d by (intro first_in_bucket_id) blast+
  then show ?thesis
    by (simp add: filter_important_hints_eq keys)
qed

lemma filter_sample:
  "filter_important_hints ascii_lib 800 600 sample_elements
   = [(1, element_at 0 0 30 20 None), (6, element_at 204 100 50 30 (Some ''push button''))]"
  by code_simp

lemma generate_sample:
  "generate_hint_labels [(1::nat, element_at 0 0 30 20 None), (6, element_at 204 100 50 30 (Some ''push button''))]
   = Inr [(str_lit ''S'', element_at 0 0 30 20 None),
          (str_lit ''A'', element_at 204 100 50 30 (Some ''push button''))]"
  by code_simp

lemma init_small_window:
  "init ascii_lib 800 600 sample_config sample_elements no_action = Inr small_window"
  unfolding init_def filter_sample generate_sample
  by (simp add: small_window_def sample_config_def)



lemma length_element_row: "length (element_row n) = n"
  by (simp add: element_row_def)

lemma label_length_197: "label_length 197 1 = 3"
  by code_simp

lemma generate_sample_window:
  "generate_hint_labels (element_row 197) = Inr (hints sample_window)"
  unfolding generate_hint_labels_zip length_element_row label_length_197
  by (simp add: sample_window_def)

lemma filter_sample_window:
  "filter_important_hints L 2000 100 (element_row 197) = element_row 197"
  by (rule filter_element_row) simp_all


lemma fresh_sample_window: "fresh_window ascii_lib sample_window"
proof -
  have "win_width sample_window = 2000" "win_height sample_window = 100"
    "all_hints sample_window = element_row 197"
    "hint_selector_state sample_window = []" "exited sample_window = None"
    by (simp_all add: sample_window_def)
  then show ?thesis
    unfolding fresh_window_def by (simp only: filter_sample_window generate_sample_window)
qed









text \<open>
  C3. A letter whose candidate prefix matches no live label changes neither the live labels
  nor the prefix: \<open>update_hints\<close> only queues a redraw, and so \<open>on_key_press\<close> leaves both
  as they were.
\<close>

theorem update_hints_commits_only_on_success:
  assumes "matching L (hint_upercase self)
             (hint_selector_state self @ normalized L (hint_upercase self) [c]) (hints self) = []"
  shows "update_hints L [c] self = self\<lparr>queued_draws := queued_draws self + 1\<rparr>
     \<and> (\<forall>ev. key_lower ev = c \<and> keyval ev \<noteq> KEY_BackSpace \<longrightarrow>
          hints (fst (on_key_press L ev self)) = hints self
          \<and> hint_selector_state (fst (on_key_press L ev self)) = hint_selector_state self)"
proof -
  have u: "update_hints L [c] self = self\<lparr>queued_draws := queued_draws self + 1\<rparr>"
    using assms by (simp add: update_hints_eq Let_def)
  have u': "update_hints L [c] (self\<lparr>mouse_action := ma\<rparr>)
            = self\<lparr>mouse_action := ma, queued_draws := queued_draws self + 1\<rparr>" for ma
    using assms by (simp add: update_hints_eq Let_def)
  have "hints (fst (on_key_press L ev self)) = hints self
        \<and> hint_selector_state (fst (on_key_press L ev self)) = hint_selector_state self"
    if "key_lower ev = c" "keyval ev \<noteq> KEY_BackSpace" for ev
    using that
    by (auto simp: on_key_press_def Let_def u' resolve_fields split: sum.splits)
  then show ?thesis using u by blast
qed

theorem update_hints_commits_only_on_success_witness:
  "matching ascii_lib (hint_upercase small_window)
     (hint_selector_state small_window @ normalized ascii_lib (hint_upercase small_window) [100])
     (hints small_window) = []
   \<and> update_hints ascii_lib [100] small_window
       = small_window\<lparr>queued_draws := queued_draws small_window + 1\<rparr>
   \<and> key_lower key_d = 100 \<and> keyval key_d \<noteq> KEY_BackSpace
   \<and> hints (fst (on_key_press ascii_lib key_d small_window)) = hints small_window
   \<and> hint_selector_state (fst (on_key_press ascii_lib key_d small_window))
       = hint_selector_state small_window"
proof -
  have m: "matching ascii_lib (hint_upercase small_window)
     (hint_selector_state small_window @ normalized ascii_lib (hint_upercase small_window) [100])
     (hints small_window) = []"
    by (simp add: matching_def normalized_def small_window_def ascii_lib_def str_lit_def)
  have k: "key_lower key_d = 100" "keyval key_d \<noteq> KEY_BackSpace"
    by (simp_all add: key_d_def KEY_BackSpace_def)
  note inst = update_hints_commits_only_on_success [OF m]
  have u: "update_hints ascii_lib [100] small_window
       = small_window\<lparr>queued_draws := queued_draws small_window + 1\<rparr>"
    using inst by (rule conjunct1)
  have "\<forall>ev. key_lower ev = 100 \<and> keyval ev \<noteq> KEY_BackSpace \<longrightarrow>
          hints (fst (on_key_press ascii_lib ev small_window)) = hints small_window
          \<and> hint_selector_state (fst (on_key_press ascii_lib ev small_window))
              = hint_selector_state small_window"
    using inst by (rule conjunct2)
  then have "hints (fst (on_key_press ascii_lib key_d small_window)) = hints small_window
          \<and> hint_selector_state (fst (on_key_press ascii_lib key_d small_window))
              = hint_selector_state small_window"
    using k by blast
  then show ?thesis using m u k by (intro conjI) simp_all
qed



lemma record_qualifiers_xy:
  "ma_x (record_qualifiers ev s) = ma_x (mouse_action s)"
  "ma_y (record_qualifiers ev s) = ma_y (mouse_action s)"
  by (simp_all add: record_qualifiers_def Let_def)

lemma on_key_press_no_labels:
  assumes "hints s = []" and "hint_selector_state s = []"
  shows "hints (fst (on_key_press L ev s)) = []"
    and "hint_selector_state (fst (on_key_press L ev s)) = []"
    and "ma_x (mouse_action (fst (on_key_press L ev s))) = ma_x (mouse_action s)"
    and "ma_y (mouse_action (fst (on_key_press L ev s))) = ma_y (mouse_action s)"
    and "exit_key (fst (on_key_press L ev s)) = exit_key s"
    and "exited (fst (on_key_press L ev s)) = exited s
         \<or> exited (fst (on_key_press L ev s)) = Some MainQuit
            \<and> (keyval ev = KEY_Escape \<or> key_lower ev = exit_key s)"
proof -
  have u: "update_hints L c (s\<lparr>mouse_action := ma\<rparr>)
           = s\<lparr>mouse_action := ma, queued_draws := queued_draws s + 1\<rparr>" for c ma
    using assms by (simp add: update_hints_eq matching_def)
  have r: "resolve L s' = (s', None)" if "hints s' = []" for s' :: "'a overlay"
    using that by (simp add: resolve_def)
  show "hints (fst (on_key_press L ev s)) = []"
    using assms by (auto simp: on_key_press_def Let_def u r split: sum.splits)
  show "hint_selector_state (fst (on_key_press L ev s)) = []"
    using assms by (auto simp: on_key_press_def Let_def u r split: sum.splits)
  show "ma_x (mouse_action (fst (on_key_press L ev s))) = ma_x (mouse_action s)"
    using assms by (auto simp: on_key_press_def Let_def u r record_qualifiers_xy split: sum.splits)
  show "ma_y (mouse_action (fst (on_key_press L ev s))) = ma_y (mouse_action s)"
    using assms by (auto simp: on_key_press_def Let_def u r record_qualifiers_xy split: sum.splits)
  show "exit_key (fst (on_key_press L ev s)) = exit_key s"
    using assms by (auto simp: on_key_press_def Let_def u r split: sum.splits)
  show "exited (fst (on_key_press L ev s)) = exited s
         \<or> exited (fst (on_key_press L ev s)) = Some MainQuit
            \<and> (keyval ev = KEY_Escape \<or> key_lower ev = exit_key s)"
    using assms by (auto simp: on_key_press_def Let_def u r split: sum.splits)
qed

lemma on_draw_exit_key: "exit_key (snd (on_draw L tw s)) = exit_key s"
  by (simp add: on_draw_def split_def Let_def)

lemma run_no_labels:
  "hints s = [] \<Longrightarrow> hint_selector_state s = [] \<Longrightarrow>
   hints (run L tw evs s) = []
   \<and> ma_x (mouse_action (run L tw evs s)) = ma_x (mouse_action s)
   \<and> ma_y (mouse_action (run L tw evs s)) = ma_y (mouse_action s)
   \<and> (exited (run L tw evs s) = exited s
        \<or> exited (run L tw evs s) = Some MainQuit
           \<and> (\<exists>ev. KeyPress ev \<in> set evs \<and> (keyval ev = KEY_Escape \<or> key_lower ev = exit_key s)))"
proof (induction evs arbitrary: s)
  case Nil
  then show ?case by simp
next
  case (Cons e evs)
  show ?case
  proof (cases "exited s \<noteq> None")
    case True
    then show ?thesis using Cons.prems by simp
  next
    case running: False
    show ?thesis
    proof (cases e)
      case (KeyPress ev)
      let ?s' = "fst (on_key_press L ev s)"
      note k = on_key_press_no_labels [OF Cons.prems, of L ev]
      have r: "run L tw (e # evs) s = run L tw evs ?s'"
        using running KeyPress by simp
      show ?thesis
        unfolding r using Cons.IH [OF k(1,2)] k(3,4,5,6) KeyPress
        by (auto simp: )
    next
      case Draw
      let ?s' = "snd (on_draw L tw s)"
      have r: "run L tw (e # evs) s = run L tw evs ?s'"
        using running Draw by simp
      have "hints ?s' = []" "hint_selector_state ?s' = []"
        using Cons.prems by (simp_all add: on_draw_fields)
      from Cons.IH [OF this] show ?thesis
        unfolding r by (auto simp: on_draw_fields on_draw_exit_key)
    qed
  qed
qed

text \<open>
  C10. When the filter keeps no element, the generated label mapping is empty, the
  constructor returns a window without labels, and after every sequence of key presses and
  draws there is still no live label (so the last statement of \<open>on_key_press\<close>, which needs
  exactly one, never fills \<open>mouse_action\<close>): \<open>x\<close> and \<open>y\<close> of \<open>mouse_action\<close> are as the
  caller passed them, the window is never destroyed, and the main loop is left only by
  \<open>Gtk.main_quit()\<close> on a key press that is Escape or the exit key.
\<close>

theorem no_elements_no_resolution:
  assumes "filter_important_hints L w h hs = []"
  shows "generate_hint_labels (filter_important_hints L w h hs) = Inr []
     \<and> (\<exists>s0. init L w h cfg hs ma = Inr s0 \<and> hints s0 = []
          \<and> (\<forall>tw evs.
                hints (run L tw evs s0) = []
                \<and> ma_x (mouse_action (run L tw evs s0)) = ma_x ma
                \<and> ma_y (mouse_action (run L tw evs s0)) = ma_y ma
                \<and> exited (run L tw evs s0) \<noteq> Some Destroyed
                \<and> (exited (run L tw evs s0) \<noteq> None \<longrightarrow>
                      exited (run L tw evs s0) = Some MainQuit
                      \<and> (\<exists>ev. KeyPress ev \<in> set evs
                             \<and> (keyval ev = KEY_Escape \<or> key_lower ev = cfg_exit_key cfg)))))"
proof -
  have gen: "generate_hint_labels (filter_important_hints L w h hs) = Inr []"
    unfolding assms by (simp add: generate_hint_labels_def)
  define s0 :: "'a overlay" where "s0 =
     \<lparr>win_width = w, win_height = h, all_hints = hs, hints = [],
      hint_selector_state = [], mouse_action = ma,
      hint_padding_x = 3, hint_height = 13, hint_upercase = True,
      exit_key = cfg_exit_key cfg, hover_modifier = cfg_hover_modifier cfg,
      grab_modifier = cfg_grab_modifier cfg, hints_drawn_offsets = [],
      queued_draws = 0, exited = None\<rparr>"
  have init: "init L w h cfg hs ma = Inr s0"
    by (simp add: init_def gen s0_def)
  have f: "hints s0 = []" "hint_selector_state s0 = []" "exited s0 = None"
    "mouse_action s0 = ma" "exit_key s0 = cfg_exit_key cfg"
    by (simp_all add: s0_def)
  have "hints (run L tw evs s0) = []
        \<and> ma_x (mouse_action (run L tw evs s0)) = ma_x ma
        \<and> ma_y (mouse_action (run L tw evs s0)) = ma_y ma
        \<and> exited (run L tw evs s0) \<noteq> Some Destroyed
        \<and> (exited (run L tw evs s0) \<noteq> None \<longrightarrow>
              exited (run L tw evs s0) = Some MainQuit
              \<and> (\<exists>ev. KeyPress ev \<in> set evs
                     \<and> (keyval ev = KEY_Escape \<or> key_lower ev = cfg_exit_key cfg)))" for tw evs
    using run_no_labels [OF f(1,2), of L tw evs] unfolding f by auto
  then show ?thesis
    using gen init f(1) by blast
qed

theorem no_elements_no_resolution_witness:
  "filter_important_hints ascii_lib 800 600 [(3::nat, element_at 40 0 4 4 None)] = []
   \<and> (\<exists>s0. init ascii_lib 800 600 sample_config [(3::nat, element_at 40 0 4 4 None)] no_action = Inr s0
        \<and> hints (run ascii_lib fixed_width [KeyPress key_s, KeyPress key_backspace, Draw] s0) = []
        \<and> exited (run ascii_lib fixed_width [KeyPress key_s, KeyPress key_backspace, Draw] s0) = None)"
proof -
  let ?hs = "[(3::nat, element_at 40 0 4 4 None)]"
  let ?evs = "[KeyPress key_s, KeyPress key_backspace, Draw]"
  have e: "filter_important_hints ascii_lib 800 600 ?hs = []"
    by (simp add: filter_important_hints_def element_at_def)
  have "\<not> (\<exists>ev. KeyPress ev \<in> set ?evs
            \<and> (keyval ev = KEY_Escape \<or> key_lower ev = cfg_exit_key sample_config))"
    by (auto simp: key_s_def key_backspace_def sample_config_def KEY_Escape_def KEY_BackSpace_def)
  then show ?thesis
    using e no_elements_no_resolution [OF e, of sample_config no_action] by blast
qed

section \<open>Drawing and resolution\<close>











end
